theory Spec2Isabelle
  imports Complex_Main "HOL-Library.Word" "HOL-Library.AList"
begin

section \<open>Export handlers of the PDF viewer (src/lib/utils/exportHandlers.ts)\<close>

text \<open>
  The module is a set of asynchronous functions over external collaborators: the page
  renderer (\<open>pdfViewer\<close>), the host shell (\<open>invoke\<close>), pdf-lib, JSZip, \<open>fetch\<close> and the
  file sink (\<open>PDFExporter.exportFile\<close>). Every \<open>await\<close> is sequential, so a call is
  modelled as a function from the collaborators' answers to the call's outcome. A
  rejected promise or a \<open>throw\<close> is \<open>Inl\<close> of an error, a normal return is \<open>Inr\<close>.
  Calls made to the collaborators and to the progress callback are recorded, in order,
  in a trace.
\<close>

subsection \<open>Data\<close>

type_synonym byte = "8 word"
type_synonym bytes = "byte list"

text \<open>
  The errors that \<open>getPdfBytesAndName\<close>, \<open>canvasToPngBlob\<close> and
  \<open>exportAllPagesAsPngZip\<close> throw themselves have a constructor each; \<open>External\<close>
  stands for whatever a collaborator throws.
\<close>

datatype error =
    FetchFailed string
  | CanvasEncodeFailed
  | EmptyArchive
  | External string

subsection \<open>compressPdfBytes\<close>

text \<open>
  The collaborators of \<open>compressPdfBytes\<close>: the module constant \<open>isTauri\<close>, the host
  command \<open>invoke('compress_pdf', {content, quality})\<close> answering a \<open>number[]\<close>, and
  pdf-lib's \<open>PDFDocument.load\<close> and \<open>doc.save\<close>. Each of the three calls may throw.
\<close>

record 'doc compress_env =
  isTauri :: bool
  invoke_compress_pdf :: "int list \<Rightarrow> int \<Rightarrow> error + int list"
  PDFDocument_load :: "bytes \<Rightarrow> error + 'doc"
  doc_save :: "'doc \<Rightarrow> error + bytes"

text \<open>\<open>Array.from(pdfBytes)\<close> and \<open>new Uint8Array(numbers)\<close> (each number taken modulo 256).\<close>

definition Array_from :: "bytes \<Rightarrow> int list" where
  "Array_from bs = map uint bs"

definition new_Uint8Array :: "int list \<Rightarrow> bytes" where
  "new_Uint8Array ns = map word_of_int ns"

text \<open>
  The second \<open>try\<close> block: load with pdf-lib and save with object streams; the
  \<open>catch\<close> returns the input.
\<close>

definition pdfLibFallback :: "'doc compress_env \<Rightarrow> bytes \<Rightarrow> error + bytes" where
  "pdfLibFallback env pdfBytes =
     (case PDFDocument_load env pdfBytes of
        Inl e \<Rightarrow> Inr pdfBytes
      | Inr doc \<Rightarrow>
          (case doc_save env doc of
             Inl e \<Rightarrow> Inr pdfBytes
           | Inr saved \<Rightarrow> Inr saved))"

text \<open>
  \<open>compressPdfBytes(pdfBytes, quality = 75)\<close>: an omitted quality is \<open>None\<close>. The
  \<open>catch\<close> of the first \<open>try\<close> only warns, and control falls to the second.
\<close>

definition compressPdfBytes :: "'doc compress_env \<Rightarrow> bytes \<Rightarrow> int option \<Rightarrow> error + bytes" where
  "compressPdfBytes env pdfBytes quality_arg =
     (let quality = (case quality_arg of None \<Rightarrow> 75 | Some q \<Rightarrow> q) in
      if isTauri env then
        (case invoke_compress_pdf env (Array_from pdfBytes) quality of
           Inr compressed \<Rightarrow> Inr (new_Uint8Array compressed)
         | Inl e \<Rightarrow> pdfLibFallback env pdfBytes)
      else pdfLibFallback env pdfBytes)"

subsection \<open>getPdfBytesAndName\<close>

text \<open>
  Strings are lists of characters. \<open>toLowerCase\<close> and the regular expression's
  case folding (\<open>Canonicalize\<close>, which upper-cases) act on the ASCII letters; no
  character outside ASCII folds to an ASCII one, so the others are left alone.
\<close>

definition toLowerCase_char :: "char \<Rightarrow> char" where
  "toLowerCase_char c =
     (let n = (of_char c :: nat) in if 65 \<le> n \<and> n \<le> 90 then char_of (n + 32) else c)"

definition toLowerCase :: "string \<Rightarrow> string" where
  "toLowerCase s = map toLowerCase_char s"

definition canonicalize :: "char \<Rightarrow> char" where
  "canonicalize c =
     (let n = (of_char c :: nat) in if 97 \<le> n \<and> n \<le> 122 then char_of (n - 32) else c)"

definition endsWith :: "string \<Rightarrow> string \<Rightarrow> bool" where
  "endsWith s suffix =
     (length suffix \<le> length s \<and> drop (length s - length suffix) s = suffix)"

text \<open>\<open>s.split(sep)\<close> for a one-character separator: never empty, \<open>''.split('/')\<close> is \<open>['']\<close>.\<close>

fun split :: "char \<Rightarrow> string \<Rightarrow> string list" where
  "split sep [] = [[]]"
| "split sep (c # cs) =
     (if c = sep then [] # split sep cs
      else (case split sep cs of
              [] \<Rightarrow> [[c]]
            | seg # segs \<Rightarrow> (c # seg) # segs))"

text \<open>\<open>xs.pop()\<close>: the last element, \<open>undefined\<close> on an empty array.\<close>

definition pop :: "'a list \<Rightarrow> 'a option" where
  "pop xs = (if xs = [] then None else Some (last xs))"

text \<open>
  \<open>defaultFilenameExtractor\<close>. The platform's \<open>new URL(url).pathname\<close> is a parameter:
  \<open>None\<close> when the constructor throws, which the \<open>catch\<close> turns into
  \<open>'document.pdf'\<close>. \<open>x || 'document.pdf'\<close> takes the default for \<open>undefined\<close> and
  for the empty string.
\<close>

definition defaultFilenameExtractor :: "(string \<Rightarrow> string option) \<Rightarrow> string \<Rightarrow> string" where
  "defaultFilenameExtractor URL_pathname url =
     (case URL_pathname url of
        None \<Rightarrow> ''document.pdf''
      | Some pathname \<Rightarrow>
          (let filename =
                 (case pop (split CHR ''/'' pathname) of
                    None \<Rightarrow> ''document.pdf''
                  | Some seg \<Rightarrow> if seg = [] then ''document.pdf'' else seg)
           in if endsWith (toLowerCase filename) ''.pdf'' then filename
              else filename @ ''.pdf''))"

text \<open>
  \<open>name.replace(/\.pdf$/i, '')\<close>: the pattern is anchored at the end of the input, so
  it can only match the last four characters, each compared after case folding.
\<close>

definition matches_dot_pdf :: "string \<Rightarrow> bool" where
  "matches_dot_pdf s = (map canonicalize s = map canonicalize ''.pdf'')"

definition replace_pdf_suffix :: "string \<Rightarrow> string" where
  "replace_pdf_suffix s =
     (if 4 \<le> length s \<and> matches_dot_pdf (drop (length s - 4) s)
      then take (length s - 4) s else s)"

text \<open>
  The argument \<open>currentFile: File | string\<close>, the \<open>Response\<close> of \<open>fetch\<close>, and the
  returned object. \<open>fetch\<close> and both \<open>arrayBuffer()\<close> calls may reject.
\<close>

record file_object =
  file_name :: string
  file_arrayBuffer :: "error + bytes"

record response =
  ok :: bool
  statusText :: string
  response_arrayBuffer :: "error + bytes"

datatype currentFile = FileObject file_object | UrlString string

record bytes_and_name =
  pdfBytes :: bytes
  originalName :: string

record fetch_env =
  fetch :: "string \<Rightarrow> error + response"
  URL_pathname :: "string \<Rightarrow> string option"

definition getPdfBytesAndName ::
  "fetch_env \<Rightarrow> currentFile \<Rightarrow> (string \<Rightarrow> string) option \<Rightarrow> error + bytes_and_name" where
  "getPdfBytesAndName env cf filenameExtractor =
     (case cf of
        UrlString url \<Rightarrow>
          (case fetch env url of
             Inl e \<Rightarrow> Inl e
           | Inr resp \<Rightarrow>
               if \<not> ok resp then Inl (FetchFailed (statusText resp))
               else
                 (case response_arrayBuffer resp of
                    Inl e \<Rightarrow> Inl e
                  | Inr arrayBuffer \<Rightarrow>
                      (let extractor =
                             (case filenameExtractor of
                                None \<Rightarrow> defaultFilenameExtractor (URL_pathname env)
                              | Some f \<Rightarrow> f)
                       in Inr \<lparr> pdfBytes = arrayBuffer,
                                originalName = replace_pdf_suffix (extractor url) \<rparr>)))
      | FileObject f \<Rightarrow>
          (case file_arrayBuffer f of
             Inl e \<Rightarrow> Inl e
           | Inr arrayBuffer \<Rightarrow>
               Inr \<lparr> pdfBytes = arrayBuffer,
                      originalName = replace_pdf_suffix (file_name f) \<rparr>))"

text \<open>
  The name the base name is derived from: the extractor's answer for a URL, the file's
  own name for a file.
\<close>

definition source_name :: "fetch_env \<Rightarrow> currentFile \<Rightarrow> (string \<Rightarrow> string) option \<Rightarrow> string" where
  "source_name env cf filenameExtractor =
     (case cf of
        UrlString url \<Rightarrow>
          (case filenameExtractor of
             None \<Rightarrow> defaultFilenameExtractor (URL_pathname env) url
           | Some f \<Rightarrow> f url)
      | FileObject f \<Rightarrow> file_name f)"

text \<open>
  The specification's word for the base name: a name is extension-free when no \<open>.\<close>
  follows its first character.
\<close>

definition extension_free :: "string \<Rightarrow> bool" where
  "extension_free name = (CHR ''.'' \<notin> set (drop 1 name))"

subsection \<open>The page renderer and the trace of calls\<close>

text \<open>
  A canvas is modelled by what its \<open>toBlob(callback, 'image/png')\<close> hands to the
  callback: the PNG bytes, or \<open>null\<close>. The viewer's two methods answer or reject.
\<close>

datatype canvas = Canvas (toBlob: "bytes option")

record pdfViewer =
  pageHasAnnotations :: "int \<Rightarrow> error + bool"
  getMergedCanvasForPage :: "int \<Rightarrow> error + canvas option"

datatype event =
    HasAnnotations int
  | GetMergedCanvas int
  | Progress int
  | ExportFile bytes string string "error + bool"

text \<open>
  \<open>ExportFile\<close> records a call of the file sink with its arguments and its answer.
\<close>

text \<open>\<open>canvasToPngBlob\<close> followed by \<open>blob.arrayBuffer()\<close>.\<close>

definition canvasToPngBlob :: "canvas \<Rightarrow> error + bytes" where
  "canvasToPngBlob c = (case toBlob c of None \<Rightarrow> Inl CanvasEncodeFailed | Some b \<Rightarrow> Inr b)"

subsection \<open>buildAnnotatedPdfExporter\<close>

text \<open>
  Modelled from the spec: the class \<open>PDFExporter\<close> of \<open>./pdfExport\<close>, which is not
  among the sources. The specification describes it as an accumulator that owns the
  original document bytes and a mapping from page number to merged canvas, with unique
  keys.
\<close>

record pdf_exporter =
  originalPDF :: "bytes option"
  pageCanvases :: "int \<rightharpoonup> canvas"

definition new_PDFExporter :: pdf_exporter where
  "new_PDFExporter = \<lparr> originalPDF = None, pageCanvases = Map.empty \<rparr>"

definition setOriginalPDF :: "bytes \<Rightarrow> pdf_exporter \<Rightarrow> pdf_exporter" where
  "setOriginalPDF bs ex = ex\<lparr> originalPDF := Some bs \<rparr>"

definition setPageCanvas :: "int \<Rightarrow> canvas \<Rightarrow> pdf_exporter \<Rightarrow> pdf_exporter" where
  "setPageCanvas pageNumber c ex = ex\<lparr> pageCanvases := (pageCanvases ex)(pageNumber \<mapsto> c) \<rparr>"

text \<open>\<open>options?: { captureAllPages?: boolean }\<close>, read with \<open>options?.captureAllPages ?? false\<close>.\<close>

datatype build_options = Options (captureAllPages_field: "bool option")

definition captureAllPages_of :: "build_options option \<Rightarrow> bool" where
  "captureAllPages_of options =
     (case options of
        None \<Rightarrow> False
      | Some opts \<Rightarrow> (case captureAllPages_field opts of None \<Rightarrow> False | Some b \<Rightarrow> b))"

text \<open>
  The \<open>for\<close> loop from \<open>pageNumber\<close> on. Page numbers are integers (JavaScript
  numbers in the range where \<open>++\<close> is exact); the loop runs while
  \<open>pageNumber <= totalPages\<close>. The trace is threaded through the loop.
\<close>

function build_loop ::
  "pdfViewer \<Rightarrow> int \<Rightarrow> bool \<Rightarrow> int \<Rightarrow> pdf_exporter \<Rightarrow> event list
     \<Rightarrow> (error + pdf_exporter) \<times> event list" where
  "build_loop viewer totalPages captureAllPages pageNumber exporter tr =
     (if pageNumber \<le> totalPages then
        (case pageHasAnnotations viewer pageNumber of
           Inl e \<Rightarrow> (Inl e, tr @ [HasAnnotations pageNumber])
         | Inr hasAnnotations \<Rightarrow>
             if hasAnnotations \<or> captureAllPages then
               (case getMergedCanvasForPage viewer pageNumber of
                  Inl e \<Rightarrow>
                    (Inl e, tr @ [HasAnnotations pageNumber, GetMergedCanvas pageNumber])
                | Inr mergedCanvas \<Rightarrow>
                    build_loop viewer totalPages captureAllPages (pageNumber + 1)
                      (case mergedCanvas of
                         None \<Rightarrow> exporter
                       | Some c \<Rightarrow> setPageCanvas pageNumber c exporter)
                      (tr @ [HasAnnotations pageNumber, GetMergedCanvas pageNumber]))
             else
               build_loop viewer totalPages captureAllPages (pageNumber + 1) exporter
                 (tr @ [HasAnnotations pageNumber]))
      else (Inr exporter, tr))"
  by pat_completeness auto
termination
  by (relation "measure (\<lambda>(viewer, totalPages, captureAllPages, pageNumber, exporter, tr).
        nat (totalPages + 1 - pageNumber))") auto

definition buildAnnotatedPdfExporter ::
  "bytes \<Rightarrow> pdfViewer \<Rightarrow> int \<Rightarrow> build_options option \<Rightarrow> (error + pdf_exporter) \<times> event list" where
  "buildAnnotatedPdfExporter bs viewer totalPages options =
     build_loop viewer totalPages (captureAllPages_of options) 1
       (setOriginalPDF bs new_PDFExporter) []"

subsection \<open>exportAllPagesAsPngZip\<close>

text \<open>
  The template literal's number-to-string conversion, for integers (below \<open>10^21\<close>
  in size, where JavaScript prints all digits): decimal digits, with a minus sign for
  a negative number.
\<close>

fun digits :: "nat \<Rightarrow> string" where
  "digits n = (if n < 10 then [char_of (48 + n)] else digits (n div 10) @ [char_of (48 + n mod 10)])"

definition Number_toString :: "int \<Rightarrow> string" where
  "Number_toString i = (if i < 0 then CHR ''-'' # digits (nat (- i)) else digits (nat i))"

definition page_entry_name :: "int \<Rightarrow> string" where
  "page_entry_name page = ''page'' @ Number_toString page @ ''.png''"

text \<open>
  \<open>Math.round(x)\<close> is the integer nearest to \<open>x\<close>, halves going up. The quotient
  \<open>(page / totalPages) * 80\<close> is taken exactly, as a rational number, where the
  source computes it in double precision.
\<close>

definition Math_round :: "rat \<Rightarrow> int" where
  "Math_round x = \<lfloor>x + 1 / 2\<rfloor>"

definition loop_progress :: "int \<Rightarrow> int \<Rightarrow> int" where
  "loop_progress page totalPages = Math_round ((of_int page / of_int totalPages) * 80)"

text \<open>
  A JSZip archive is its list of entries in insertion order; \<open>zip.file(name, data)\<close>
  replaces the data of an entry of that name and appends a new entry otherwise.
\<close>

type_synonym jszip = "(string \<times> bytes) list"

definition zip_file :: "string \<Rightarrow> bytes \<Rightarrow> jszip \<Rightarrow> jszip" where
  "zip_file name data z = AList.update name data z"

record export_state =
  zipArchive :: jszip
  filesAdded :: nat
  trace :: "event list"

text \<open>
  The collaborators after the loop: \<open>zip.generateAsync\<close> and the file sink
  \<open>PDFExporter.exportFile(bytes, filename, mimeType)\<close>, which answers whether the user
  saved. The optional callback \<open>onProgress\<close> is \<open>True\<close> when supplied; its calls are
  the \<open>Progress\<close> events of the trace.
\<close>

record export_env =
  generateAsync :: "jszip \<Rightarrow> error + bytes"
  exportFile :: "bytes \<Rightarrow> string \<Rightarrow> string \<Rightarrow> error + bool"

definition emit :: "event list \<Rightarrow> export_state \<Rightarrow> export_state" where
  "emit evs st = st\<lparr> trace := trace st @ evs \<rparr>"

text \<open>
  The \<open>for\<close> loop from \<open>page\<close> on, over the archive, the counter \<open>filesAdded\<close> and
  the trace; \<open>continue\<close> goes straight to the next page.
\<close>

function png_loop ::
  "pdfViewer \<Rightarrow> int \<Rightarrow> bool \<Rightarrow> int \<Rightarrow> export_state \<Rightarrow> (error + unit) \<times> export_state" where
  "png_loop viewer totalPages onProgress page st =
     (if page \<le> totalPages then
        (case getMergedCanvasForPage viewer page of
           Inl e \<Rightarrow> (Inl e, emit [GetMergedCanvas page] st)
         | Inr None \<Rightarrow>
             png_loop viewer totalPages onProgress (page + 1) (emit [GetMergedCanvas page] st)
         | Inr (Some c) \<Rightarrow>
             (case canvasToPngBlob c of
                Inl e \<Rightarrow> (Inl e, emit [GetMergedCanvas page] st)
              | Inr arrayBuffer \<Rightarrow>
                  png_loop viewer totalPages onProgress (page + 1)
                    (emit (if onProgress then [Progress (loop_progress page totalPages)] else [])
                      ((emit [GetMergedCanvas page] st)
                         \<lparr> zipArchive := zip_file (page_entry_name page) arrayBuffer (zipArchive st),
                           filesAdded := filesAdded st + 1 \<rparr>))))
      else (Inr (), st))"
  by pat_completeness auto
termination
  by (relation "measure (\<lambda>(viewer, totalPages, onProgress, page, st).
        nat (totalPages + 1 - page))") auto

text \<open>
  The function itself; the dynamic \<open>import('jszip')\<close> is taken to succeed. It returns
  its outcome together with the final state.
\<close>

definition exportAllPagesAsPngZip ::
  "export_env \<Rightarrow> pdfViewer \<Rightarrow> int \<Rightarrow> string \<Rightarrow> bool \<Rightarrow> (error + bool) \<times> export_state" where
  "exportAllPagesAsPngZip env viewer totalPages baseName onProgress =
     (case png_loop viewer totalPages onProgress 1
             \<lparr> zipArchive = [], filesAdded = 0, trace = [] \<rparr> of
        (Inl e, st) \<Rightarrow> (Inl e, st)
      | (Inr u, st) \<Rightarrow>
          if filesAdded st = 0 then (Inl EmptyArchive, st)
          else
            (case generateAsync env (zipArchive st) of
               Inl e \<Rightarrow> (Inl e, st)
             | Inr zipBytes \<Rightarrow>
                 (let st1 = emit (if onProgress then [Progress 95] else []) st;
                      filename = baseName @ ''_pages.zip'';
                      answer = exportFile env zipBytes filename ''application/zip'';
                      st2 = emit [ExportFile zipBytes filename ''application/zip'' answer] st1
                  in case answer of
                       Inl e \<Rightarrow> (Inl e, st2)
                     | Inr saved \<Rightarrow>
                         (Inr saved,
                          emit (if saved \<and> onProgress then [Progress 100] else []) st2))))"

subsection \<open>Reading the trace\<close>

text \<open>The progress values reported, and the answers the file sink gave, in order.\<close>

fun progress_values :: "event list \<Rightarrow> int list" where
  "progress_values [] = []"
| "progress_values (Progress n # evs) = n # progress_values evs"
| "progress_values (ev # evs) = progress_values evs"

fun sink_answers :: "event list \<Rightarrow> (error + bool) list" where
  "sink_answers [] = []"
| "sink_answers (ExportFile zipBytes filename mime answer # evs) = answer # sink_answers evs"
| "sink_answers (ev # evs) = sink_answers evs"

text \<open>
  A page is skipped when the viewer answers \<open>null\<close> for it, and rendered when the
  viewer answers a canvas that encodes to PNG. \<open>page_events\<close> is what one iteration of
  the archive loop adds to the trace for such a page.
\<close>

definition skipped :: "pdfViewer \<Rightarrow> int \<Rightarrow> bool" where
  "skipped viewer q = (getMergedCanvasForPage viewer q = Inr None)"

definition rendered :: "pdfViewer \<Rightarrow> int \<Rightarrow> bool" where
  "rendered viewer q =
     (case getMergedCanvasForPage viewer q of
        Inr (Some c) \<Rightarrow> toBlob c \<noteq> None
      | _ \<Rightarrow> False)"

definition page_events :: "pdfViewer \<Rightarrow> bool \<Rightarrow> int \<Rightarrow> int \<Rightarrow> event list" where
  "page_events viewer onProgress totalPages q =
     GetMergedCanvas q #
       (if rendered viewer q \<and> onProgress then [Progress (loop_progress q totalPages)] else [])"

text \<open>
  In \<open>buildAnnotatedPdfExporter\<close>, a page needs capture when the flag is set or the
  viewer says it has annotations; \<open>calls_from\<close> and \<open>captured_from\<close> bound the calls
  and the mapping's keys that the loop from page \<open>p\<close> on can add.
\<close>

definition needs_capture :: "pdfViewer \<Rightarrow> bool \<Rightarrow> int \<Rightarrow> bool" where
  "needs_capture viewer cap q = (cap \<or> pageHasAnnotations viewer q = Inr True)"

definition calls_from :: "pdfViewer \<Rightarrow> bool \<Rightarrow> int \<Rightarrow> int \<Rightarrow> event set" where
  "calls_from viewer cap p totalPages =
     {HasAnnotations q | q. p \<le> q \<and> q \<le> totalPages} \<union>
     {GetMergedCanvas q | q. p \<le> q \<and> q \<le> totalPages \<and> needs_capture viewer cap q}"

definition captured_from :: "pdfViewer \<Rightarrow> bool \<Rightarrow> int \<Rightarrow> int \<Rightarrow> int set" where
  "captured_from viewer cap p totalPages =
     {q. p \<le> q \<and> q \<le> totalPages \<and> needs_capture viewer cap q}"

text \<open>Reading a decimal numeral back, to tell entry names apart.\<close>

definition undigits :: "string \<Rightarrow> nat" where
  "undigits s = foldl (\<lambda>a c. 10 * a + (of_char c - 48)) 0 s"


subsection \<open>Sample collaborators\<close>

text \<open>
  A host in which every compression tier fails: inside the host shell, the host
  command throws, and pdf-lib fails to load the bytes.
\<close>

definition failing_env :: "unit compress_env" where
  "failing_env =
     \<lparr> isTauri = True,
       invoke_compress_pdf = (\<lambda>content quality. Inl (External ''compress_pdf'')),
       PDFDocument_load = (\<lambda>bs. Inl (External ''load'')),
       doc_save = (\<lambda>doc. Inr []) \<rparr>"

text \<open>
  A platform that fetches every URL successfully with the body \<open>[37, 80]\<close> and parses
  the two URLs used below as the URL standard does.
\<close>

definition sample_fetch_env :: fetch_env where
  "sample_fetch_env =
     \<lparr> fetch = (\<lambda>url. Inr \<lparr> ok = True, statusText = ''OK'',
                            response_arrayBuffer = Inr [37, 80] \<rparr>),
       URL_pathname = (\<lambda>url.
         if url = ''https://x/y/report.PDF'' then Some ''/y/report.PDF''
         else if url = ''https://x/y/'' then Some ''/y/''
         else None) \<rparr>"

text \<open>
  A viewer in which only page 1 has annotations and every page renders; a viewer in
  which pages 2 and 4 do not render; a viewer in which no page renders; a sink where
  the user saves and one where the user cancels.
\<close>

definition annotated_viewer :: pdfViewer where
  "annotated_viewer =
     \<lparr> pageHasAnnotations = (\<lambda>p. Inr (p = 1)),
       getMergedCanvasForPage = (\<lambda>p. Inr (Some (Canvas (Some [137, 80, word_of_int p])))) \<rparr>"

definition viewer_2_4_fail :: pdfViewer where
  "viewer_2_4_fail =
     \<lparr> pageHasAnnotations = (\<lambda>p. Inr False),
       getMergedCanvasForPage = (\<lambda>p.
         Inr (if p = 2 \<or> p = 4 then None else Some (Canvas (Some [137, 80, word_of_int p])))) \<rparr>"

definition blank_viewer :: pdfViewer where
  "blank_viewer =
     \<lparr> pageHasAnnotations = (\<lambda>p. Inr False),
       getMergedCanvasForPage = (\<lambda>p. Inr None) \<rparr>"

definition saving_env :: export_env where
  "saving_env =
     \<lparr> generateAsync = (\<lambda>z. Inr (concat (map snd z))),
       exportFile = (\<lambda>zipBytes filename mime. Inr True) \<rparr>"

definition cancelling_env :: export_env where
  "cancelling_env =
     \<lparr> generateAsync = (\<lambda>z. Inr (concat (map snd z))),
       exportFile = (\<lambda>zipBytes filename mime. Inr False) \<rparr>"

definition double_pdf_file :: file_object where
  "double_pdf_file = \<lparr> file_name = ''report.pdf.pdf'', file_arrayBuffer = Inr [37, 80] \<rparr>"

definition plain_pdf_file :: file_object where
  "plain_pdf_file = \<lparr> file_name = ''Report.PDF'', file_arrayBuffer = Inr [37, 80] \<rparr>"

section \<open>Properties\<close>

subsection \<open>compressPdfBytes\<close>

lemma pdfLibFallback_returns: "\<exists>out. pdfLibFallback env input = Inr out"
  by (simp add: pdfLibFallback_def split: sum.splits)

lemma pdfLibFallback_passthrough:
  "(\<exists>e. PDFDocument_load env input = Inl e) \<or>
   (\<exists>doc e. PDFDocument_load env input = Inr doc \<and> doc_save env doc = Inl e)
   \<Longrightarrow> pdfLibFallback env input = Inr input"
  by (auto simp add: pdfLibFallback_def split: sum.splits)

text \<open>
  C1. For every input and every quality (in [1,100] in particular), whatever the host
  command and pdf-lib do (answer or throw), \<open>compressPdfBytes\<close> returns normally with
  a byte buffer: its outcome is never an error.
\<close>

theorem compressPdfBytes_never_throws:
  "\<exists>out. compressPdfBytes env input quality = Inr out"
  using pdfLibFallback_returns [of env input]
  by (auto simp add: compressPdfBytes_def Let_def split: sum.splits)

theorem compressPdfBytes_never_throws_witness:
  "\<exists>out. compressPdfBytes failing_env [1, 2, 3] (Some 50) = Inr out"
  using compressPdfBytes_never_throws [of failing_env "[1, 2, 3]" "Some 50"] .

text \<open>
  C9. When the native tier is unavailable (\<open>isTauri\<close> is false) or the host command
  throws, and the library tier fails (loading throws, or saving the loaded document
  throws), \<open>compressPdfBytes\<close> returns its input bytes unchanged.
\<close>

theorem compressPdfBytes_passthrough:
  assumes native: "\<not> isTauri env \<or>
      (\<exists>e. invoke_compress_pdf env (Array_from input)
              (case quality of None \<Rightarrow> 75 | Some q \<Rightarrow> q) = Inl e)"
    and library: "(\<exists>e. PDFDocument_load env input = Inl e) \<or>
      (\<exists>doc e. PDFDocument_load env input = Inr doc \<and> doc_save env doc = Inl e)"
  shows "compressPdfBytes env input quality = Inr input"
  using native pdfLibFallback_passthrough [OF library]
  by (auto simp add: compressPdfBytes_def Let_def split: sum.splits)

theorem compressPdfBytes_passthrough_witness:
  "compressPdfBytes failing_env [1, 2, 3] (Some 50) = Inr [1, 2, 3]"
  by (rule compressPdfBytes_passthrough) (simp_all add: failing_env_def)

subsection \<open>getPdfBytesAndName\<close>

lemma split_ne: "split sep s \<noteq> []"
  by (induction s) (auto split: list.splits)

lemma split_no_sep: "sep \<notin> set s \<Longrightarrow> split sep s = [s]"
  by (induction s) auto

lemma split_sep_two: "sep \<in> set s \<Longrightarrow> \<exists>x y ys. split sep s = x # y # ys"
proof (induction s)
  case Nil
  then show ?case by simp
next
  case (Cons c cs)
  show ?case
  proof (cases "c = sep")
    case True
    then show ?thesis using split_ne [of sep cs] by (cases "split sep cs") auto
  next
    case False
    with Cons.prems have "sep \<in> set cs" by simp
    from Cons.IH [OF this] False show ?thesis by auto
  qed
qed

text \<open>The last segment is what follows the last separator.\<close>

lemma last_split: "last (split sep s) = rev (takeWhile (\<lambda>c. c \<noteq> sep) (rev s))"
proof (induction s)
  case Nil
  then show ?case by simp
next
  case (Cons c cs)
  show ?case
  proof (cases "sep \<in> set cs")
    case True
    then obtain x y ys where sp: "split sep cs = x # y # ys"
      using split_sep_two by blast
    from True have tw:
      "takeWhile (\<lambda>c. c \<noteq> sep) (rev cs @ [c]) = takeWhile (\<lambda>c. c \<noteq> sep) (rev cs)"
      by (simp add: takeWhile_append1)
    show ?thesis using Cons.IH sp tw by (cases "c = sep") simp_all
  next
    case False
    then have sp: "split sep cs = [cs]" by (rule split_no_sep)
    from False have tw:
      "takeWhile (\<lambda>c. c \<noteq> sep) (rev cs @ [c]) = rev cs @ takeWhile (\<lambda>c. c \<noteq> sep) [c]"
      by (intro takeWhile_append2) auto
    show ?thesis unfolding rev.simps tw using sp by (cases "c = sep") simp_all
  qed
qed

lemma last_split_empty: "s = [] \<or> last s = sep \<Longrightarrow> last (split sep s) = []"
  by (cases s rule: rev_cases) (simp_all add: last_split)

lemma defaultFilenameExtractor_no_segment:
  assumes "parse url = Some pathname" and "pathname = [] \<or> last pathname = CHR ''/''"
  shows "defaultFilenameExtractor parse url = ''document.pdf''"
proof -
  have e: "endsWith (toLowerCase ''document.pdf'') ''.pdf''" by code_simp
  have "pop (split CHR ''/'' pathname) = Some []"
    using last_split_empty [OF assms(2)] by (simp add: pop_def split_ne)
  then show ?thesis using assms(1) e by (simp add: defaultFilenameExtractor_def)
qed

lemma defaultFilenameExtractor_report:
  assumes "parse url = Some ''/y/report.PDF''"
  shows "defaultFilenameExtractor parse url = ''report.PDF''"
proof -
  have e: "endsWith (toLowerCase ''report.PDF'') ''.pdf''" by code_simp
  have "pop (split CHR ''/'' ''/y/report.PDF'') = Some ''report.PDF''"
    by (simp add: pop_def)
  then show ?thesis using assms(1) e by (simp add: defaultFilenameExtractor_def)
qed

lemma replace_report: "replace_pdf_suffix ''report.PDF'' = ''report''"
  by code_simp

lemma replace_document: "replace_pdf_suffix ''document.pdf'' = ''document''"
  by code_simp

lemma matches_dot_pdf_length:
  assumes "matches_dot_pdf ext"
  shows "length ext = 4"
proof -
  from assms have "length (map canonicalize ext) = length (map canonicalize ''.pdf'')"
    by (simp only: matches_dot_pdf_def)
  then show ?thesis by simp
qed

lemma replace_pdf_suffix_stem:
  "matches_dot_pdf ext \<Longrightarrow> replace_pdf_suffix (stem @ ext) = stem"
  by (frule matches_dot_pdf_length) (simp add: replace_pdf_suffix_def)

lemma replace_pdf_suffix_other:
  "\<not> matches_dot_pdf (drop (length s - 4) s) \<Longrightarrow> replace_pdf_suffix s = s"
  by (simp add: replace_pdf_suffix_def)

lemma originalName_replace:
  "getPdfBytesAndName env cf extractor = Inr r \<Longrightarrow>
   originalName r = replace_pdf_suffix (source_name env cf extractor)"
  by (auto simp add: getPdfBytesAndName_def source_name_def Let_def
      split: currentFile.splits sum.splits if_splits option.splits)

text \<open>
  C8. With the default extractor (no extractor passed) and a successful fetch: when the
  platform parses the URL's path as \<open>/y/report.PDF\<close>, as it does for
  \<open>https://x/y/report.PDF\<close>, the base name is \<open>report\<close>; when the parsed path is empty
  or ends in \<open>/\<close>, so that it has no final segment, the base name is \<open>document\<close>.
\<close>

theorem getPdfBytesAndName_default_names:
  assumes "fetch env url = Inr resp" and "ok resp"
    and "response_arrayBuffer resp = Inr content"
  shows "(URL_pathname env url = Some ''/y/report.PDF'' \<longrightarrow>
            getPdfBytesAndName env (UrlString url) None =
              Inr \<lparr> pdfBytes = content, originalName = ''report'' \<rparr>) \<and>
         (\<forall>pathname. URL_pathname env url = Some pathname \<and>
              (pathname = [] \<or> last pathname = CHR ''/'') \<longrightarrow>
            getPdfBytesAndName env (UrlString url) None =
              Inr \<lparr> pdfBytes = content, originalName = ''document'' \<rparr>)"
  using assms
  by (auto simp add: getPdfBytesAndName_def defaultFilenameExtractor_report
      defaultFilenameExtractor_no_segment replace_report replace_document)

theorem getPdfBytesAndName_default_names_witness:
  "getPdfBytesAndName sample_fetch_env (UrlString ''https://x/y/report.PDF'') None =
     Inr \<lparr> pdfBytes = [37, 80], originalName = ''report'' \<rparr> \<and>
   getPdfBytesAndName sample_fetch_env (UrlString ''https://x/y/'') None =
     Inr \<lparr> pdfBytes = [37, 80], originalName = ''document'' \<rparr>"
proof -
  let ?resp = "\<lparr> ok = True, statusText = ''OK'', response_arrayBuffer = Inr [37, 80] \<rparr>"
  have f: "fetch sample_fetch_env u = Inr ?resp" for u
    by (simp add: sample_fetch_env_def)
  have p1: "URL_pathname sample_fetch_env ''https://x/y/report.PDF'' = Some ''/y/report.PDF''"
    by (simp add: sample_fetch_env_def)
  have p2: "URL_pathname sample_fetch_env ''https://x/y/'' = Some ''/y/''"
    by (simp add: sample_fetch_env_def)
  from getPdfBytesAndName_default_names [OF f, of "[37, 80]" "''https://x/y/report.PDF''"] p1
  have a: "getPdfBytesAndName sample_fetch_env (UrlString ''https://x/y/report.PDF'') None =
     Inr \<lparr> pdfBytes = [37, 80], originalName = ''report'' \<rparr>"
    by simp
  from getPdfBytesAndName_default_names [OF f, of "[37, 80]" "''https://x/y/''"] p2
  have b: "getPdfBytesAndName sample_fetch_env (UrlString ''https://x/y/'') None =
     Inr \<lparr> pdfBytes = [37, 80], originalName = ''document'' \<rparr>"
    by simp
  from a b show ?thesis by simp
qed

text \<open>
  C7, as stated, fails: a file named \<open>report.pdf.pdf\<close> is accepted and its base name
  is \<open>report.pdf\<close>, which still carries the extension.
\<close>

theorem base_name_extension_free_counterexample:
  "getPdfBytesAndName sample_fetch_env (FileObject double_pdf_file) None =
     Inr \<lparr> pdfBytes = [37, 80], originalName = ''report.pdf'' \<rparr> \<and>
   \<not> extension_free ''report.pdf'' \<and>
   matches_dot_pdf (drop (length ''report.pdf'' - 4) ''report.pdf'')"
  by code_simp

text \<open>
  C7, amended. For every source that \<open>getPdfBytesAndName\<close> accepts, the base name is
  the source's name with one trailing \<open>.pdf\<close>, in any letter case, removed: a name
  made of a stem and such a suffix gives the stem, which is extension-free when the
  stem is; a name that does not end in \<open>.pdf\<close> is returned unchanged.
\<close>

theorem base_name_strips_one_pdf_suffix:
  assumes "getPdfBytesAndName env cf extractor = Inr r"
  shows "(source_name env cf extractor = stem @ ext \<and> matches_dot_pdf ext \<longrightarrow>
            originalName r = stem \<and> (extension_free stem \<longrightarrow> extension_free (originalName r))) \<and>
         (\<not> matches_dot_pdf (drop (length (source_name env cf extractor) - 4)
                               (source_name env cf extractor)) \<longrightarrow>
            originalName r = source_name env cf extractor)"
  using originalName_replace [OF assms]
  by (auto simp add: replace_pdf_suffix_stem replace_pdf_suffix_other)

theorem base_name_strips_one_pdf_suffix_witness:
  "\<exists>r. getPdfBytesAndName sample_fetch_env (FileObject plain_pdf_file) None = Inr r \<and>
        source_name sample_fetch_env (FileObject plain_pdf_file) None = ''Report'' @ ''.PDF'' \<and>
        matches_dot_pdf ''.PDF'' \<and> extension_free ''Report'' \<and>
        originalName r = ''Report'' \<and> extension_free (originalName r)"
proof -
  let ?r = "\<lparr> pdfBytes = [37, 80], originalName = ''Report'' \<rparr>"
  have run: "getPdfBytesAndName sample_fetch_env (FileObject plain_pdf_file) None = Inr ?r"
    by code_simp
  have nm: "source_name sample_fetch_env (FileObject plain_pdf_file) None = ''Report'' @ ''.PDF''"
    by (simp add: source_name_def plain_pdf_file_def)
  have m: "matches_dot_pdf ''.PDF''" by code_simp
  have ef: "extension_free ''Report''" by code_simp
  from base_name_strips_one_pdf_suffix [OF run, of "''Report''" "''.PDF''"] nm m ef
  have "originalName ?r = ''Report'' \<and> extension_free (originalName ?r)" by blast
  with run nm m ef show ?thesis by blast
qed

subsection \<open>buildAnnotatedPdfExporter\<close>

declare build_loop.simps [simp del]

lemma calls_from_Suc: "calls_from viewer cap (p + 1) totalPages \<subseteq> calls_from viewer cap p totalPages"
  by (auto simp add: calls_from_def)

lemma captured_from_Suc: "captured_from viewer cap (p + 1) totalPages \<subseteq> captured_from viewer cap p totalPages"
  by (auto simp add: captured_from_def)

lemma calls_from_has: "p \<le> totalPages \<Longrightarrow> HasAnnotations p \<in> calls_from viewer cap p totalPages"
  by (auto simp add: calls_from_def)

lemma calls_from_get:
  "p \<le> totalPages \<Longrightarrow> needs_capture viewer cap p \<Longrightarrow> GetMergedCanvas p \<in> calls_from viewer cap p totalPages"
  by (auto simp add: calls_from_def)

lemma captured_from_here:
  "p \<le> totalPages \<Longrightarrow> needs_capture viewer cap p \<Longrightarrow> p \<in> captured_from viewer cap p totalPages"
  by (auto simp add: captured_from_def)

lemma build_loop_frame:
  "build_loop viewer totalPages cap p ex tr = (r, tr') \<Longrightarrow>
   set tr' \<subseteq> set tr \<union> calls_from viewer cap p totalPages \<and>
   (\<forall>ex'. r = Inr ex' \<longrightarrow>
      dom (pageCanvases ex') \<subseteq> dom (pageCanvases ex) \<union> captured_from viewer cap p totalPages)"
proof (induction viewer totalPages cap p ex tr rule: build_loop.induct)
  case (1 viewer totalPages cap p ex tr)
  note unf = build_loop.simps [of viewer totalPages cap p ex tr]
  show ?case
  proof (cases "p \<le> totalPages")
    case False
    with "1.prems" show ?thesis by (auto simp add: unf)
  next
    case le: True
    note h = calls_from_has [OF le, of viewer cap]
    show ?thesis
    proof (cases "pageHasAnnotations viewer p")
      case (Inl e)
      with le "1.prems" h show ?thesis by (auto simp add: unf)
    next
      case has: (Inr hasAnnotations)
      show ?thesis
      proof (cases "hasAnnotations \<or> cap")
        case False
        with le has "1.prems" have
          rec: "build_loop viewer totalPages cap (p + 1) ex (tr @ [HasAnnotations p]) = (r, tr')"
          by (simp add: unf)
        from "1.IH"(2) [OF le has False rec] h
          calls_from_Suc [of viewer cap p totalPages] captured_from_Suc [of viewer cap p totalPages]
        show ?thesis by (simp add: subset_iff) blast
      next
        case True
        then have nc: "needs_capture viewer cap p"
          using has by (auto simp add: needs_capture_def)
        note g = calls_from_get [OF le nc]
        note c = captured_from_here [OF le nc]
        show ?thesis
        proof (cases "getMergedCanvasForPage viewer p")
          case (Inl e)
          with le has True "1.prems" h g show ?thesis by (auto simp add: unf)
        next
          case (Inr mergedCanvas)
          let ?ex = "case mergedCanvas of None \<Rightarrow> ex | Some c \<Rightarrow> setPageCanvas p c ex"
          from Inr le has True "1.prems" have
            rec: "build_loop viewer totalPages cap (p + 1) ?ex
                    (tr @ [HasAnnotations p, GetMergedCanvas p]) = (r, tr')"
            by (simp add: unf)
          have d: "dom (pageCanvases ?ex) \<subseteq> insert p (dom (pageCanvases ex))"
            by (auto simp add: setPageCanvas_def split: option.splits)
          from "1.IH"(1) [OF le has True Inr rec] h g c d
            calls_from_Suc [of viewer cap p totalPages] captured_from_Suc [of viewer cap p totalPages]
          show ?thesis by (simp add: subset_iff) blast
        qed
      qed
    qed
  qed
qed

lemma build_loop_capture_all:
  "build_loop viewer totalPages True p ex tr = (Inr ex', tr') \<Longrightarrow>
   \<forall>q\<ge>p. pageCanvases ex q = None \<Longrightarrow>
   tr' = tr @ concat (map (\<lambda>q. [HasAnnotations q, GetMergedCanvas q]) [p..totalPages]) \<and>
   (\<forall>q. p \<le> q \<and> q \<le> totalPages \<longrightarrow> getMergedCanvasForPage viewer q = Inr (pageCanvases ex' q)) \<and>
   (\<forall>q. q < p \<longrightarrow> pageCanvases ex' q = pageCanvases ex q)"
proof (induction viewer totalPages True p ex tr rule: build_loop.induct)
  case (1 viewer totalPages p ex tr)
  note unf = build_loop.simps [of viewer totalPages True p ex tr]
  show ?case
  proof (cases "p \<le> totalPages")
    case False
    with "1.prems" show ?thesis by (auto simp add: unf)
  next
    case le: True
    show ?thesis
    proof (cases "pageHasAnnotations viewer p")
      case (Inl e)
      with le "1.prems" show ?thesis by (auto simp add: unf)
    next
      case has: (Inr hasAnnotations)
      show ?thesis
      proof (cases "getMergedCanvasForPage viewer p")
        case (Inl e)
        with le has "1.prems" show ?thesis by (auto simp add: unf)
      next
        case (Inr mergedCanvas)
        let ?ex = "case mergedCanvas of None \<Rightarrow> ex | Some c \<Rightarrow> setPageCanvas p c ex"
        from Inr le has "1.prems"(1) have
          rec: "build_loop viewer totalPages True (p + 1) ?ex
                  (tr @ [HasAnnotations p, GetMergedCanvas p]) = (Inr ex', tr')"
          by (simp add: unf)
        have before: "pageCanvases ?ex q = pageCanvases ex q" if "q < p" for q
          using that by (auto simp add: setPageCanvas_def split: option.splits)
        have t: "hasAnnotations \<or> True" by simp
        have fresh: "\<forall>q\<ge>p + 1. pageCanvases ?ex q = None"
          using "1.prems"(2) by (auto simp add: setPageCanvas_def split: option.splits)
        have here: "pageCanvases ?ex p = mergedCanvas"
          using "1.prems"(2) by (auto simp add: setPageCanvas_def split: option.splits)
        note ih = "1.hyps"(1) [OF le has t Inr rec fresh]
        from ih have ih1: "tr' = (tr @ [HasAnnotations p, GetMergedCanvas p]) @
                    concat (map (\<lambda>q. [HasAnnotations q, GetMergedCanvas q]) [p + 1..totalPages])"
          by (rule conjunct1)
        from ih have ih2: "\<forall>q. p + 1 \<le> q \<and> q \<le> totalPages \<longrightarrow>
                      getMergedCanvasForPage viewer q = Inr (pageCanvases ex' q)"
          by simp
        from ih have ih3: "\<forall>q. q < p + 1 \<longrightarrow> pageCanvases ex' q = pageCanvases ?ex q"
          by simp
        have up: "[p..totalPages] = p # [p + 1..totalPages]"
          using le by (simp add: upto_rec1)
        have c1: "tr' = tr @ concat (map (\<lambda>q. [HasAnnotations q, GetMergedCanvas q]) [p..totalPages])"
          using ih1 up by simp
        have c3: "\<forall>q. q < p \<longrightarrow> pageCanvases ex' q = pageCanvases ex q"
          using ih3 before by simp
        have c2: "getMergedCanvasForPage viewer q = Inr (pageCanvases ex' q)"
          if "p \<le> q" and "q \<le> totalPages" for q
        proof (cases "q = p")
          case True
          with ih3 here Inr show ?thesis by simp
        next
          case False
          with that ih2 show ?thesis by simp
        qed
        from c1 c2 c3 show ?thesis by blast
      qed
    qed
  qed
qed


text \<open>
  C6, as stated, fails: with the capture-all-pages flag set the loop still calls
  \<open>pageHasAnnotations\<close> for each page before requesting the canvas.
\<close>

theorem capture_all_skips_query_counterexample:
  "captureAllPages_of (Some (Options (Some True))) \<and>
   snd (buildAnnotatedPdfExporter [37, 80] annotated_viewer 2 (Some (Options (Some True)))) =
     [HasAnnotations 1, GetMergedCanvas 1, HasAnnotations 2, GetMergedCanvas 2]"
  by code_simp

text \<open>
  C6, amended. When the capture-all-pages flag is set and the builder returns, it has
  queried \<open>pageHasAnnotations\<close> for every page from 1 to \<open>totalPages\<close> and, whatever
  the answer, requested that page's merged canvas right after; the exporter's mapping
  holds for each of these pages exactly what the viewer returned.
\<close>

theorem capture_all_queries_and_captures:
  assumes "captureAllPages_of options"
    and "buildAnnotatedPdfExporter bs viewer totalPages options = (Inr ex, tr)"
  shows "tr = concat (map (\<lambda>p. [HasAnnotations p, GetMergedCanvas p]) [1..totalPages]) \<and>
         (\<forall>p\<in>{1..totalPages}. getMergedCanvasForPage viewer p = Inr (pageCanvases ex p))"
proof -
  from assms have run: "build_loop viewer totalPages True 1 (setOriginalPDF bs new_PDFExporter) [] = (Inr ex, tr)"
    by (simp add: buildAnnotatedPdfExporter_def)
  have fresh: "\<forall>q\<ge>1. pageCanvases (setOriginalPDF bs new_PDFExporter) q = None"
    by (simp add: setOriginalPDF_def new_PDFExporter_def)
  from build_loop_capture_all [OF run fresh] show ?thesis by simp
qed

theorem capture_all_queries_and_captures_witness:
  "\<exists>ex. buildAnnotatedPdfExporter [37, 80] annotated_viewer 2 (Some (Options (Some True))) =
          (Inr ex, [HasAnnotations 1, GetMergedCanvas 1, HasAnnotations 2, GetMergedCanvas 2]) \<and>
        getMergedCanvasForPage annotated_viewer 2 = Inr (pageCanvases ex 2)"
proof -
  let ?run = "buildAnnotatedPdfExporter [37, 80] annotated_viewer 2 (Some (Options (Some True)))"
  have flag: "captureAllPages_of (Some (Options (Some True)))" by code_simp
  have "\<not> isl (fst ?run)" by code_simp
  then obtain ex tr where run: "?run = (Inr ex, tr)"
    by (cases ?run; cases "fst ?run") auto
  have up: "[1..2] = [1, 2::int]" by code_simp
  from capture_all_queries_and_captures [OF flag run] up run show ?thesis by simp
qed

text \<open>
  C10. With the capture-all-pages flag unset, a page for which \<open>pageHasAnnotations\<close>
  answers false is never passed to \<open>getMergedCanvasForPage\<close>, whether the builder
  returns or throws, and it is absent from the returned exporter's mapping; the keys
  of that mapping all lie in \<open>[1, totalPages]\<close>.
\<close>

theorem unannotated_pages_not_captured:
  assumes "\<not> captureAllPages_of options"
    and "buildAnnotatedPdfExporter bs viewer totalPages options = (r, tr)"
  shows "(\<forall>p. pageHasAnnotations viewer p = Inr False \<longrightarrow>
            GetMergedCanvas p \<notin> set tr \<and> (\<forall>ex. r = Inr ex \<longrightarrow> pageCanvases ex p = None)) \<and>
         (\<forall>ex. r = Inr ex \<longrightarrow> dom (pageCanvases ex) \<subseteq> {1..totalPages})"
proof -
  let ?ex0 = "setOriginalPDF bs new_PDFExporter"
  from assms have run: "build_loop viewer totalPages False 1 ?ex0 [] = (r, tr)"
    by (simp add: buildAnnotatedPdfExporter_def)
  have d0: "dom (pageCanvases ?ex0) = {}"
    by (simp add: setOriginalPDF_def new_PDFExporter_def)
  from build_loop_frame [OF run] d0
  have tr: "set tr \<subseteq> calls_from viewer False 1 totalPages"
    and dm: "\<forall>ex. r = Inr ex \<longrightarrow> dom (pageCanvases ex) \<subseteq> captured_from viewer False 1 totalPages"
    by simp_all
  have a: "GetMergedCanvas p \<notin> set tr" if "pageHasAnnotations viewer p = Inr False" for p
    using tr that by (auto simp add: calls_from_def needs_capture_def)
  have b: "pageCanvases ex p = None"
    if "pageHasAnnotations viewer p = Inr False" and "r = Inr ex" for p ex
  proof -
    from that have "p \<notin> captured_from viewer False 1 totalPages"
      by (simp add: captured_from_def needs_capture_def)
    with dm that(2) show ?thesis by blast
  qed
  have c: "dom (pageCanvases ex) \<subseteq> {1..totalPages}" if "r = Inr ex" for ex
    using dm that by (auto simp add: captured_from_def)
  from a b c show ?thesis by blast
qed

theorem unannotated_pages_not_captured_witness:
  "pageHasAnnotations annotated_viewer 2 = Inr False \<and>
   GetMergedCanvas 2 \<notin> set (snd (buildAnnotatedPdfExporter [37, 80] annotated_viewer 3 None)) \<and>
   (\<exists>ex. fst (buildAnnotatedPdfExporter [37, 80] annotated_viewer 3 None) = Inr ex \<and>
         pageCanvases ex 2 = None \<and> dom (pageCanvases ex) \<subseteq> {1..3})"
proof -
  let ?run = "buildAnnotatedPdfExporter [37, 80] annotated_viewer 3 None"
  have flag: "\<not> captureAllPages_of None" by code_simp
  have has: "pageHasAnnotations annotated_viewer 2 = Inr False"
    by (simp add: annotated_viewer_def)
  have "\<not> isl (fst ?run)" by code_simp
  then obtain ex where ex: "fst ?run = Inr ex"
    by (cases "fst ?run") auto
  have run: "?run = (Inr ex, snd ?run)" using ex by (cases ?run) simp
  from unannotated_pages_not_captured [OF flag run] has ex show ?thesis by blast
qed

subsection \<open>exportAllPagesAsPngZip\<close>

declare png_loop.simps [simp del]
declare digits.simps [simp del]

lemma progress_values_append:
  "progress_values (xs @ ys) = progress_values xs @ progress_values ys"
  by (induction xs rule: progress_values.induct) simp_all

lemma sink_answers_append:
  "sink_answers (xs @ ys) = sink_answers xs @ sink_answers ys"
  by (induction xs rule: sink_answers.induct) simp_all

lemma loop_progress_mono:
  "0 < totalPages \<Longrightarrow> p \<le> q \<Longrightarrow> loop_progress p totalPages \<le> loop_progress q totalPages"
  unfolding loop_progress_def Math_round_def
  by (intro floor_mono add_right_mono mult_right_mono divide_right_mono) simp_all

lemma loop_progress_le_80:
  assumes "0 < totalPages" and "p \<le> totalPages"
  shows "loop_progress p totalPages \<le> 80"
proof -
  have "(of_int p :: rat) / of_int totalPages \<le> 1"
    using assms by simp
  then have "(of_int p :: rat) / of_int totalPages * 80 + 1 / 2 < of_int 81"
    by simp
  then have "\<lfloor>(of_int p :: rat) / of_int totalPages * 80 + 1 / 2\<rfloor> < 81"
    by (simp only: floor_less_iff)
  then show ?thesis by (simp add: loop_progress_def Math_round_def)
qed

lemma of_char_digit: "d < 10 \<Longrightarrow> (of_char (char_of (48 + d :: nat)) :: nat) = 48 + d"
  by (simp add: of_char_of)

lemma undigits_snoc: "undigits (s @ [c]) = 10 * undigits s + (of_char c - 48)"
  by (simp add: undigits_def)

lemma undigits_digits: "undigits (digits n) = n"
proof (induction n rule: digits.induct)
  case (1 n)
  show ?case
  proof (cases "n < 10")
    case True
    then show ?thesis
      by (subst digits.simps) (simp add: undigits_def of_char_digit)
  next
    case False
    have "n mod 10 < 10" by simp
    then have d: "(of_char (char_of (48 + n mod 10)) :: nat) = 48 + n mod 10"
      by (rule of_char_digit)
    from False "1.IH" have "undigits (digits (n div 10)) = n div 10" by simp
    with False d show ?thesis
      by (subst digits.simps) (simp add: undigits_snoc)
  qed
qed

lemma digits_inj: "digits n = digits m \<Longrightarrow> n = m"
  by (metis undigits_digits)

lemma digits_no_minus: "CHR ''-'' \<notin> set (digits n)"
proof (induction n rule: digits.induct)
  case (1 n)
  have ne: "char_of (48 + d :: nat) \<noteq> CHR ''-''" if "d < 10" for d
  proof
    assume "char_of (48 + d) = CHR ''-''"
    then have "(of_char (char_of (48 + d)) :: nat) = of_char CHR ''-''" by simp
    with that show False by (simp add: of_char_digit)
  qed
  show ?case
  proof (cases "n < 10")
    case True
    then show ?thesis using ne [of n] by (subst digits.simps) auto
  next
    case False
    with "1.IH" have "CHR ''-'' \<notin> set (digits (n div 10))" by simp
    with False show ?thesis using ne [of "n mod 10"] by (subst digits.simps) auto
  qed
qed

lemma digits_ne: "digits n \<noteq> []"
  by (subst digits.simps) simp

lemma Number_toString_inj: "Number_toString i = Number_toString j \<Longrightarrow> i = j"
proof -
  assume eq: "Number_toString i = Number_toString j"
  have hd_neg: "hd (Number_toString k) = CHR ''-''" if "k < 0" for k
    using that by (simp add: Number_toString_def)
  have hd_pos: "hd (Number_toString k) \<noteq> CHR ''-''" if "\<not> k < 0" for k
    using that digits_no_minus [of "nat k"] digits_ne [of "nat k"]
    by (cases "digits (nat k)") (auto simp add: Number_toString_def)
  show "i = j"
  proof (cases "i < 0")
    case True
    with eq hd_neg [of i] hd_pos [of j] have "j < 0" by metis
    with True eq have "digits (nat (- i)) = digits (nat (- j))"
      by (simp add: Number_toString_def)
    then have "nat (- i) = nat (- j)" by (rule digits_inj)
    with True \<open>j < 0\<close> show ?thesis by simp
  next
    case False
    with eq hd_neg [of j] hd_pos [of i] have nj: "\<not> j < 0" by metis
    with False eq have "digits (nat i) = digits (nat j)"
      by (simp add: Number_toString_def)
    then have "nat i = nat j" by (rule digits_inj)
    with False nj show ?thesis by simp
  qed
qed

lemma page_entry_name_inj: "page_entry_name p = page_entry_name q \<longleftrightarrow> p = q"
  by (auto simp add: page_entry_name_def dest: Number_toString_inj)


lemma png_loop_progress:
  "png_loop viewer totalPages onProgress p st = (r, st') \<Longrightarrow>
   \<exists>evs qs. trace st' = trace st @ evs \<and> sink_answers evs = [] \<and>
     progress_values evs = map (\<lambda>q. loop_progress q totalPages) qs \<and>
     sorted qs \<and> set qs \<subseteq> {p..totalPages}"
proof (induction viewer totalPages onProgress p st arbitrary: r st' rule: png_loop.induct)
  case (1 viewer totalPages onProgress p st)
  note unf = png_loop.simps [of viewer totalPages onProgress p st]
  let ?f = "\<lambda>q. loop_progress q totalPages"
  have stop: ?case if "trace st' = trace st @ [GetMergedCanvas p]" and "p \<le> totalPages"
  proof -
    have "sink_answers [GetMergedCanvas p] = [] \<and>
        progress_values [GetMergedCanvas p] = map ?f [] \<and> sorted ([] :: int list) \<and>
        set [] \<subseteq> {p..totalPages}"
      by simp
    with that(1) show ?thesis by blast
  qed
  show ?case
  proof (cases "p \<le> totalPages")
    case False
    with "1.prems" have "trace st' = trace st @ []" by (simp add: unf)
    moreover have "sink_answers [] = [] \<and> progress_values [] = map ?f [] \<and>
        sorted ([] :: int list) \<and> set [] \<subseteq> {p..totalPages}"
      by simp
    ultimately show ?thesis by blast
  next
    case le: True
    show ?thesis
    proof (cases "getMergedCanvasForPage viewer p")
      case (Inl e)
      with le "1.prems" have "trace st' = trace st @ [GetMergedCanvas p]"
        by (auto simp add: unf emit_def)
      then show ?thesis using le by (rule stop)
    next
      case (Inr mc)
      show ?thesis
      proof (cases mc)
        case None
        with Inr le "1.prems" have
          rec: "png_loop viewer totalPages onProgress (p + 1) (emit [GetMergedCanvas p] st) = (r, st')"
          by (simp add: unf)
        from "1.IH"(1) [OF le Inr None rec] obtain evs qs where
          ih: "trace st' = trace (emit [GetMergedCanvas p] st) @ evs" "sink_answers evs = []"
            "progress_values evs = map ?f qs" "sorted qs" "set qs \<subseteq> {p + 1..totalPages}"
          by blast
        have "trace st' = trace st @ (GetMergedCanvas p # evs)"
          using ih(1) by (simp add: emit_def)
        moreover have "sink_answers (GetMergedCanvas p # evs) = []" using ih(2) by simp
        moreover have "progress_values (GetMergedCanvas p # evs) = map ?f qs" using ih(3) by simp
        moreover have "set qs \<subseteq> {p..totalPages}" using ih(5) by auto
        ultimately show ?thesis using ih(4) by blast
      next
        case (Some c)
        show ?thesis
        proof (cases "canvasToPngBlob c")
          case (Inl e)
          with Inr Some le "1.prems" have "trace st' = trace st @ [GetMergedCanvas p]"
            by (auto simp add: unf emit_def)
          then show ?thesis using le by (rule stop)
        next
          case blob: (Inr arrayBuffer)
          let ?pe = "if onProgress then [Progress (loop_progress p totalPages)] else []"
          let ?st = "emit ?pe ((emit [GetMergedCanvas p] st)
                         \<lparr> zipArchive := zip_file (page_entry_name p) arrayBuffer (zipArchive st),
                           filesAdded := filesAdded st + 1 \<rparr>)"
          from blob Inr Some le "1.prems" have
            rec: "png_loop viewer totalPages onProgress (p + 1) ?st = (r, st')"
            by (simp add: unf)
          from "1.IH"(2) [OF le Inr Some blob rec] obtain evs qs where
            ih: "trace st' = trace ?st @ evs" "sink_answers evs = []"
              "progress_values evs = map ?f qs" "sorted qs" "set qs \<subseteq> {p + 1..totalPages}"
            by blast
          let ?qs = "(if onProgress then [p] else []) @ qs"
          have t: "trace st' = trace st @ (GetMergedCanvas p # ?pe @ evs)"
            using ih(1) by (simp add: emit_def)
          have s: "sink_answers (GetMergedCanvas p # ?pe @ evs) = []"
            using ih(2) by simp
          have v: "progress_values (GetMergedCanvas p # ?pe @ evs) = map ?f ?qs"
            using ih(3) by simp
          have so: "sorted ?qs" using ih(4) ih(5) by auto
          have su: "set ?qs \<subseteq> {p..totalPages}" using ih(5) le by auto
          from t s v so su show ?thesis by blast
        qed
      qed
    qed
  qed
qed


lemma upto_step: "p \<le> totalPages \<Longrightarrow> [p..totalPages] = p # [p + 1..totalPages]"
  by (rule upto_rec1)

lemma skipped_not_rendered: "skipped viewer q \<Longrightarrow> \<not> rendered viewer q"
  by (simp add: skipped_def rendered_def)

lemma png_loop_exact:
  "png_loop viewer totalPages onProgress p st = (r, st') \<Longrightarrow>
   \<forall>q. p \<le> q \<and> q \<le> totalPages \<longrightarrow> skipped viewer q \<or> rendered viewer q \<Longrightarrow>
   \<forall>q\<ge>p. page_entry_name q \<notin> set (map fst (zipArchive st)) \<Longrightarrow>
   r = Inr () \<and>
   trace st' = trace st @ concat (map (page_events viewer onProgress totalPages) [p..totalPages]) \<and>
   map fst (zipArchive st') =
     map fst (zipArchive st) @ map page_entry_name (filter (rendered viewer) [p..totalPages]) \<and>
   filesAdded st' = filesAdded st + length (filter (rendered viewer) [p..totalPages])"
proof (induction viewer totalPages onProgress p st rule: png_loop.induct)
  case (1 viewer totalPages onProgress p st)
  note unf = png_loop.simps [of viewer totalPages onProgress p st]
  note run = "1.prems"(1) and pages = "1.prems"(2) and fresh = "1.prems"(3)
  show ?case
  proof (cases "p \<le> totalPages")
    case False
    with run show ?thesis by (auto simp add: unf)
  next
    case le: True
    note up = upto_step [OF le]
    from pages le have here: "skipped viewer p \<or> rendered viewer p" by simp
    from pages have pages': "\<forall>q. p + 1 \<le> q \<and> q \<le> totalPages \<longrightarrow> skipped viewer q \<or> rendered viewer q"
      by simp
    show ?thesis
    proof (cases "getMergedCanvasForPage viewer p")
      case (Inl e)
      with here show ?thesis by (simp add: skipped_def rendered_def)
    next
      case (Inr mc)
      show ?thesis
      proof (cases mc)
        case None
        with Inr have nr: "\<not> rendered viewer p" by (simp add: rendered_def)
        from None Inr le run have
          rec: "png_loop viewer totalPages onProgress (p + 1) (emit [GetMergedCanvas p] st) = (r, st')"
          by (simp add: unf)
        have fresh': "\<forall>q\<ge>p + 1. page_entry_name q \<notin> set (map fst (zipArchive (emit [GetMergedCanvas p] st)))"
          using fresh by (simp add: emit_def)
        from "1.IH"(1) [OF le Inr None rec pages' fresh'] nr
        show ?thesis by (simp add: up page_events_def emit_def)
      next
        case (Some c)
        with Inr here have "toBlob c \<noteq> None" by (simp add: skipped_def rendered_def)
        then obtain arrayBuffer where blob: "canvasToPngBlob c = Inr arrayBuffer"
          by (auto simp add: canvasToPngBlob_def)
        from Some Inr \<open>toBlob c \<noteq> None\<close> have rd: "rendered viewer p" by (simp add: rendered_def)
        let ?pe = "if onProgress then [Progress (loop_progress p totalPages)] else []"
        let ?st = "emit ?pe ((emit [GetMergedCanvas p] st)
                       \<lparr> zipArchive := zip_file (page_entry_name p) arrayBuffer (zipArchive st),
                         filesAdded := filesAdded st + 1 \<rparr>)"
        from blob Inr Some le run have
          rec: "png_loop viewer totalPages onProgress (p + 1) ?st = (r, st')"
          by (simp add: unf)
        have za: "zipArchive ?st = zip_file (page_entry_name p) arrayBuffer (zipArchive st)"
          by (simp add: emit_def)
        from fresh have "page_entry_name p \<notin> set (map fst (zipArchive st))" by simp
        then have names: "map fst (zipArchive ?st) = map fst (zipArchive st) @ [page_entry_name p]"
          unfolding za by (simp add: zip_file_def update_keys)
        have fresh': "\<forall>q\<ge>p + 1. page_entry_name q \<notin> set (map fst (zipArchive ?st))"
          unfolding names using fresh by (simp add: page_entry_name_inj)
        have tr: "trace ?st = trace st @ page_events viewer onProgress totalPages p"
          using rd by (simp add: emit_def page_events_def)
        have fa: "filesAdded ?st = filesAdded st + 1" by (simp add: emit_def)
        note ih = "1.IH"(2) [OF le Inr Some blob rec pages' fresh']
        from ih [unfolded names tr fa] rd
        show ?thesis by (simp add: up)
      qed
    qed
  qed
qed


lemma sorted_loop_values:
  "sorted qs \<Longrightarrow> set qs \<subseteq> {1..totalPages} \<Longrightarrow>
   sorted (map (\<lambda>q. loop_progress q totalPages) qs) \<and>
   (\<forall>q\<in>set qs. loop_progress q totalPages \<le> 80)"
proof (induction qs)
  case Nil
  then show ?case by simp
next
  case (Cons q qs)
  then have pos: "0 < totalPages" and le: "q \<le> totalPages" by auto
  from Cons.prems have "\<forall>y\<in>set qs. q \<le> y" by simp
  with pos have "\<forall>y\<in>set qs. loop_progress q totalPages \<le> loop_progress y totalPages"
    by (simp add: loop_progress_mono)
  moreover from Cons have "sorted (map (\<lambda>q. loop_progress q totalPages) qs) \<and>
      (\<forall>q\<in>set qs. loop_progress q totalPages \<le> 80)" by simp
  ultimately show ?case using loop_progress_le_80 [OF pos le] by simp
qed

lemma export_after_loop:
  assumes "png_loop viewer totalPages onProgress 1
             \<lparr> zipArchive = [], filesAdded = 0, trace = [] \<rparr> = (r, st1)"
  shows "\<exists>rest. trace (snd (exportAllPagesAsPngZip env viewer totalPages baseName onProgress)) =
                  trace st1 @ rest \<and>
               set (progress_values rest) \<subseteq> {95, 100} \<and>
               (\<forall>q. GetMergedCanvas q \<notin> set rest)"
    and "zipArchive (snd (exportAllPagesAsPngZip env viewer totalPages baseName onProgress)) =
           zipArchive st1"
  using assms
  by (auto simp add: exportAllPagesAsPngZip_def Let_def emit_def split: sum.splits)

lemma export_outcome:
  assumes "exportAllPagesAsPngZip env viewer totalPages baseName onProgress = (res, st)"
  shows "\<exists>vs. sorted vs \<and> (\<forall>v\<in>set vs. v \<le> 80) \<and>
           ((progress_values (trace st) = vs \<and> sink_answers (trace st) = []) \<or>
            (progress_values (trace st) =
               vs @ (if onProgress then [95] else []) @
                 (if res = Inr True \<and> onProgress then [100] else []) \<and>
             sink_answers (trace st) = [res]))"
proof -
  obtain r st1 where L: "png_loop viewer totalPages onProgress 1
             \<lparr> zipArchive = [], filesAdded = 0, trace = [] \<rparr> = (r, st1)"
    by (cases "png_loop viewer totalPages onProgress 1
             \<lparr> zipArchive = [], filesAdded = 0, trace = [] \<rparr>")
  from png_loop_progress [OF L] obtain qs where
    t: "sink_answers (trace st1) = []"
      "progress_values (trace st1) = map (\<lambda>q. loop_progress q totalPages) qs"
      "sorted qs" "set qs \<subseteq> {1..totalPages}"
    by auto
  let ?vs = "map (\<lambda>q. loop_progress q totalPages) qs"
  from sorted_loop_values [OF t(3) t(4)] have vs: "sorted ?vs" "\<forall>v\<in>set ?vs. v \<le> 80"
    by simp_all
  have "(progress_values (trace st) = ?vs \<and> sink_answers (trace st) = []) \<or>
        (progress_values (trace st) =
           ?vs @ (if onProgress then [95] else []) @
             (if res = Inr True \<and> onProgress then [100] else []) \<and>
         sink_answers (trace st) = [res])"
    using assms L t(1) t(2)
    by (auto simp add: exportAllPagesAsPngZip_def Let_def emit_def progress_values_append
        sink_answers_append split: sum.splits if_splits)
  with vs show ?thesis by blast
qed


text \<open>
  C2, as stated, fails: with five pages of which pages 2 and 4 do not render, the
  archive does hold exactly \<open>page1.png\<close>, \<open>page3.png\<close> and \<open>page5.png\<close>, but
  the loop reports progress three times, not five: \<open>continue\<close> leaves the iterations
  of pages 2 and 4 before the callback.
\<close>

theorem progress_every_iteration_counterexample:
  "trace (snd (exportAllPagesAsPngZip saving_env viewer_2_4_fail 5 ''doc'' True)) =
     [GetMergedCanvas 1, Progress 16, GetMergedCanvas 2, GetMergedCanvas 3, Progress 48,
      GetMergedCanvas 4, GetMergedCanvas 5, Progress 80, Progress 95,
      ExportFile [137, 80, 1, 137, 80, 3, 137, 80, 5] ''doc_pages.zip'' ''application/zip''
        (Inr True),
      Progress 100] \<and>
   progress_values (trace (snd (exportAllPagesAsPngZip saving_env viewer_2_4_fail 5 ''doc'' True))) =
     [16, 48, 80, 95, 100] \<and>
   map fst (zipArchive (snd (exportAllPagesAsPngZip saving_env viewer_2_4_fail 5 ''doc'' True))) =
     [''page1.png'', ''page3.png'', ''page5.png'']"
  by code_simp

text \<open>
  C2, amended. When every page either renders or is skipped, the trace of the export
  starts with the loop's iterations in page order: each requests the page's canvas and,
  only if the page rendered (and a callback was supplied), reports
  \<open>round(page / totalPages * 80)\<close>; an iteration whose page does not render reports
  nothing. What follows the loop requests no canvas and reports only 95 and 100. The
  archive's entries are the rendered pages' names, in page order; with five pages and
  pages 2 and 4 failing these are \<open>page1.png\<close>, \<open>page3.png\<close>, \<open>page5.png\<close>, with
  three loop callbacks.
\<close>

theorem progress_only_for_rendered_pages:
  assumes "\<forall>p\<in>{1..totalPages}. skipped viewer p \<or> rendered viewer p"
  shows "(\<exists>rest. trace (snd (exportAllPagesAsPngZip env viewer totalPages baseName onProgress)) =
            concat (map (page_events viewer onProgress totalPages) [1..totalPages]) @ rest \<and>
            set (progress_values rest) \<subseteq> {95, 100} \<and>
            (\<forall>q. GetMergedCanvas q \<notin> set rest)) \<and>
         map fst (zipArchive (snd (exportAllPagesAsPngZip env viewer totalPages baseName onProgress))) =
           map page_entry_name (filter (rendered viewer) [1..totalPages])"
proof -
  let ?st0 = "\<lparr> zipArchive = [], filesAdded = 0, trace = [] \<rparr>"
  obtain r st1 where L: "png_loop viewer totalPages onProgress 1 ?st0 = (r, st1)"
    by (cases "png_loop viewer totalPages onProgress 1 ?st0")
  from assms have pages:
    "\<forall>q. 1 \<le> q \<and> q \<le> totalPages \<longrightarrow> skipped viewer q \<or> rendered viewer q"
    by simp
  have fresh: "\<forall>q\<ge>1. page_entry_name q \<notin> set (map fst (zipArchive ?st0))" by simp
  from png_loop_exact [OF L pages fresh]
  have tr: "trace st1 = concat (map (page_events viewer onProgress totalPages) [1..totalPages])"
    and names: "map fst (zipArchive st1) =
      map page_entry_name (filter (rendered viewer) [1..totalPages])"
    by simp_all
  from export_after_loop(1) [OF L, of env baseName] export_after_loop(2) [OF L, of env baseName]
    tr names
  show ?thesis by simp
qed

theorem progress_only_for_rendered_pages_witness:
  "(\<exists>rest. trace (snd (exportAllPagesAsPngZip saving_env viewer_2_4_fail 5 ''doc'' True)) =
      [GetMergedCanvas 1, Progress 16, GetMergedCanvas 2, GetMergedCanvas 3, Progress 48,
       GetMergedCanvas 4, GetMergedCanvas 5, Progress 80] @ rest \<and>
      set (progress_values rest) \<subseteq> {95, 100}) \<and>
   map fst (zipArchive (snd (exportAllPagesAsPngZip saving_env viewer_2_4_fail 5 ''doc'' True))) =
     [''page1.png'', ''page3.png'', ''page5.png'']"
proof -
  have pages: "\<forall>p\<in>{1..5}. skipped viewer_2_4_fail p \<or> rendered viewer_2_4_fail p"
    by (simp add: skipped_def rendered_def viewer_2_4_fail_def)
  have ev: "concat (map (page_events viewer_2_4_fail True 5) [1..5]) =
      [GetMergedCanvas 1, Progress 16, GetMergedCanvas 2, GetMergedCanvas 3, Progress 48,
       GetMergedCanvas 4, GetMergedCanvas 5, Progress 80]"
    by code_simp
  have nm: "map page_entry_name (filter (rendered viewer_2_4_fail) [1..5]) =
      [''page1.png'', ''page3.png'', ''page5.png'']"
    by code_simp
  from progress_only_for_rendered_pages [OF pages, of saving_env "''doc''" True]
  show ?thesis unfolding ev nm by blast
qed

text \<open>
  C3. For \<open>totalPages \<ge> 1\<close>, if the viewer returns a canvas for every page from 1
  to \<open>totalPages\<close> and every canvas encodes, the archive has exactly \<open>totalPages\<close>
  entries, named \<open>page1.png\<close> to \<open>page{totalPages}.png\<close> in this order, all
  different.
\<close>

theorem all_pages_rendered_archive:
  assumes "1 \<le> totalPages"
    and "\<forall>p\<in>{1..totalPages}. \<exists>c png.
           getMergedCanvasForPage viewer p = Inr (Some c) \<and> toBlob c = Some png"
  shows "map fst (zipArchive (snd (exportAllPagesAsPngZip env viewer totalPages baseName onProgress))) =
           map page_entry_name [1..totalPages] \<and>
         length (zipArchive (snd (exportAllPagesAsPngZip env viewer totalPages baseName onProgress))) =
           nat totalPages \<and>
         distinct (map fst (zipArchive
           (snd (exportAllPagesAsPngZip env viewer totalPages baseName onProgress))))"
proof -
  let ?st0 = "\<lparr> zipArchive = [], filesAdded = 0, trace = [] \<rparr>"
  let ?z = "zipArchive (snd (exportAllPagesAsPngZip env viewer totalPages baseName onProgress))"
  obtain r st1 where L: "png_loop viewer totalPages onProgress 1 ?st0 = (r, st1)"
    by (cases "png_loop viewer totalPages onProgress 1 ?st0")
  from assms(2) have all: "\<forall>q \<in> set [1..totalPages]. rendered viewer q"
    by (auto simp add: rendered_def)
  then have pages:
    "\<forall>q. 1 \<le> q \<and> q \<le> totalPages \<longrightarrow> skipped viewer q \<or> rendered viewer q"
    by simp
  have fresh: "\<forall>q\<ge>1. page_entry_name q \<notin> set (map fst (zipArchive ?st0))" by simp
  from all have f: "filter (rendered viewer) [1..totalPages] = [1..totalPages]"
    by (simp only: filter_True)
  from png_loop_exact [OF L pages fresh] f export_after_loop(2) [OF L, of env baseName]
  have names: "map fst ?z = map page_entry_name [1..totalPages]"
    by simp
  have "length (map fst ?z) = nat totalPages"
    unfolding names using assms(1) by simp
  then have len: "length ?z = nat totalPages" by simp
  have "distinct (map page_entry_name [1..totalPages])"
    by (simp add: distinct_map inj_on_def page_entry_name_inj)
  with names len show ?thesis by simp
qed

theorem all_pages_rendered_archive_witness:
  "map fst (zipArchive (snd (exportAllPagesAsPngZip saving_env annotated_viewer 3 ''doc'' True))) =
     [''page1.png'', ''page2.png'', ''page3.png''] \<and>
   length (zipArchive (snd (exportAllPagesAsPngZip saving_env annotated_viewer 3 ''doc'' True))) = 3"
proof -
  have pages: "\<forall>p\<in>{1..3}. \<exists>c png.
      getMergedCanvasForPage annotated_viewer p = Inr (Some c) \<and> toBlob c = Some png"
    by (simp add: annotated_viewer_def)
  have nm: "map page_entry_name [1..3] = [''page1.png'', ''page2.png'', ''page3.png'']"
    by code_simp
  have "(1::int) \<le> 3" by simp
  from all_pages_rendered_archive [OF this pages, of saving_env "''doc''" True]
  show ?thesis unfolding nm by simp
qed

text \<open>
  C4. If the viewer returns \<open>null\<close> for every page from 1 to \<open>totalPages\<close>, the
  export fails with the empty-archive error and the file sink is never called.
\<close>

theorem all_pages_null_empty_archive:
  assumes "\<forall>p\<in>{1..totalPages}. getMergedCanvasForPage viewer p = Inr None"
  shows "fst (exportAllPagesAsPngZip env viewer totalPages baseName onProgress) = Inl EmptyArchive \<and>
         sink_answers (trace (snd (exportAllPagesAsPngZip env viewer totalPages baseName onProgress))) = []"
proof -
  let ?st0 = "\<lparr> zipArchive = [], filesAdded = 0, trace = [] \<rparr>"
  obtain r st1 where L: "png_loop viewer totalPages onProgress 1 ?st0 = (r, st1)"
    by (cases "png_loop viewer totalPages onProgress 1 ?st0")
  from assms have sk: "\<forall>q\<in>set [1..totalPages]. skipped viewer q"
    by (simp add: skipped_def)
  then have pages:
    "\<forall>q. 1 \<le> q \<and> q \<le> totalPages \<longrightarrow> skipped viewer q \<or> rendered viewer q"
    by simp
  have fresh: "\<forall>q\<ge>1. page_entry_name q \<notin> set (map fst (zipArchive ?st0))" by simp
  from sk have f: "filter (rendered viewer) [1..totalPages] = []"
    by (simp add: skipped_not_rendered)
  from png_loop_exact [OF L pages fresh] f have r: "r = Inr ()" and fa: "filesAdded st1 = 0"
    by simp_all
  from png_loop_progress [OF L] have sa: "sink_answers (trace st1) = []" by auto
  from L r fa sa show ?thesis
    by (simp add: exportAllPagesAsPngZip_def)
qed

theorem all_pages_null_empty_archive_witness:
  "fst (exportAllPagesAsPngZip saving_env blank_viewer 4 ''doc'' True) = Inl EmptyArchive \<and>
   sink_answers (trace (snd (exportAllPagesAsPngZip saving_env blank_viewer 4 ''doc'' True))) = []"
proof -
  have "\<forall>p\<in>{1..4}. getMergedCanvasForPage blank_viewer p = Inr None"
    by (simp add: blank_viewer_def)
  from all_pages_null_empty_archive [OF this] show ?thesis .
qed

text \<open>
  C5. For every archive export, whatever its outcome, the reported progress values
  are non-decreasing. With a callback supplied, the sequence ends at 100 exactly when
  the file sink answered that the user saved. If the sink answers that the user
  cancelled, the export returns false and the last reported value is 95.
\<close>

theorem progress_monotone_and_final:
  assumes "exportAllPagesAsPngZip env viewer totalPages baseName onProgress = (res, st)"
  shows "sorted (progress_values (trace st)) \<and>
         (onProgress \<longrightarrow>
            ((progress_values (trace st) \<noteq> [] \<and> last (progress_values (trace st)) = 100) \<longleftrightarrow>
             Inr True \<in> set (sink_answers (trace st)))) \<and>
         (Inr False \<in> set (sink_answers (trace st)) \<longrightarrow>
            res = Inr False \<and>
            (onProgress \<longrightarrow>
               progress_values (trace st) \<noteq> [] \<and> last (progress_values (trace st)) = 95))"
proof -
  from export_outcome [OF assms] obtain vs where
    vs: "sorted vs" "\<forall>v\<in>set vs. v \<le> 80"
    and out: "(progress_values (trace st) = vs \<and> sink_answers (trace st) = []) \<or>
            (progress_values (trace st) =
               vs @ (if onProgress then [95] else []) @
                 (if res = Inr True \<and> onProgress then [100] else []) \<and>
             sink_answers (trace st) = [res])"
    by blast
  have l: "last vs \<noteq> 100" if "vs \<noteq> []"
  proof -
    from that have "last vs \<in> set vs" by simp
    with vs(2) have "last vs \<le> 80" by blast
    then show ?thesis by simp
  qed
  from out show ?thesis
  proof
    assume "progress_values (trace st) = vs \<and> sink_answers (trace st) = []"
    with vs l show ?thesis by auto
  next
    assume "progress_values (trace st) =
               vs @ (if onProgress then [95] else []) @
                 (if res = Inr True \<and> onProgress then [100] else []) \<and>
             sink_answers (trace st) = [res]"
    with vs l show ?thesis by (auto simp add: sorted_append)
  qed
qed

theorem progress_monotone_and_final_witness:
  "sorted (progress_values (trace (snd
      (exportAllPagesAsPngZip saving_env viewer_2_4_fail 5 ''doc'' True)))) \<and>
   Inr True \<in> set (sink_answers (trace (snd
      (exportAllPagesAsPngZip saving_env viewer_2_4_fail 5 ''doc'' True)))) \<and>
   last (progress_values (trace (snd
      (exportAllPagesAsPngZip saving_env viewer_2_4_fail 5 ''doc'' True)))) = 100 \<and>
   Inr False \<in> set (sink_answers (trace (snd
      (exportAllPagesAsPngZip cancelling_env viewer_2_4_fail 5 ''doc'' True)))) \<and>
   fst (exportAllPagesAsPngZip cancelling_env viewer_2_4_fail 5 ''doc'' True) = Inr False \<and>
   last (progress_values (trace (snd
      (exportAllPagesAsPngZip cancelling_env viewer_2_4_fail 5 ''doc'' True)))) = 95"
proof -
  let ?X = "exportAllPagesAsPngZip saving_env viewer_2_4_fail 5 ''doc'' True"
  let ?Y = "exportAllPagesAsPngZip cancelling_env viewer_2_4_fail 5 ''doc'' True"
  have sx: "Inr True \<in> set (sink_answers (trace (snd ?X)))" by code_simp
  have sy: "Inr False \<in> set (sink_answers (trace (snd ?Y)))" by code_simp
  have x: "?X = (fst ?X, snd ?X)" by simp
  have y: "?Y = (fst ?Y, snd ?Y)" by simp
  from progress_monotone_and_final [OF x] sx
  have a: "sorted (progress_values (trace (snd ?X))) \<and>
      last (progress_values (trace (snd ?X))) = 100"
    by blast
  from progress_monotone_and_final [OF y] sy
  have b: "fst ?Y = Inr False \<and> last (progress_values (trace (snd ?Y))) = 95"
    by blast
  from a b sx sy show ?thesis by blast
qed

end
